theory Spec2Isabelle
  imports Main "HOL-Library.Word" "HOL-Library.Multiset" "HOL-Library.AList"
begin

section \<open>Data model\<close>

text \<open>
  A Solana public key is 32 bytes; \<^verbatim>\<open>PublicKey(0)\<close> is the all-zero key. The class
  defines neither \<^verbatim>\<open>__bool__\<close> nor \<^verbatim>\<open>__len__\<close>, so every key object is truthy,
  the zero key included; only \<^verbatim>\<open>None\<close> is falsy where the source tests a key.
\<close>

type_synonym PublicKey = "256 word"

type_synonym bytes = "8 word list"

text \<open>
  A Python \<^verbatim>\<open>str\<close> is represented by the string of its UTF-8 bytes (a \<open>char\<close> is
  one byte), so that \<^verbatim>\<open>s.encode("utf8")\<close> turns each \<open>char\<close> into the byte it
  stands for and \<^verbatim>\<open>len(s.encode("utf8"))\<close> is the length of the representation. A
  \<^verbatim>\<open>str\<close> with a lone surrogate, which has no UTF-8 encoding, has no representation.
\<close>

type_synonym str = string

text \<open>
  A Python \<^verbatim>\<open>dict\<close> is an association list in insertion order; a well-formed one
  has pairwise distinct keys. \<^verbatim>\<open>d[k] = v\<close> replaces the value of a key that is
  present, in place, and appends a new key at the end.
\<close>

type_synonym ('k, 'v) py_dict = "('k \<times> 'v) list"

definition dict_setitem :: "('k, 'v) py_dict \<Rightarrow> 'k \<Rightarrow> 'v \<Rightarrow> ('k, 'v) py_dict" where
  "dict_setitem d k v = AList.update k v d"

text \<open>
  The types of the \<^verbatim>\<open>solana\<close> library that \<^verbatim>\<open>get_actual_signers\<close> reads:
  a keypair, an instruction's account entry, an instruction, a transaction.
\<close>

record Keypair =
  public_key :: PublicKey
  secret_key :: bytes

record AccountMeta =
  pubkey :: PublicKey
  is_signer :: bool
  is_writable :: bool

record TransactionInstruction =
  keys :: "AccountMeta list"
  program_id :: PublicKey
  data :: bytes

record Transaction =
  instructions :: "TransactionInstruction list"

text \<open>
  \<^verbatim>\<open>PythMappingAccount\<close> (declared in \<^verbatim>\<open>program_admin.types\<close>): the two fields
  that \<^verbatim>\<open>sort_mapping_account_keys\<close> reads, \<^verbatim>\<open>account.public_key\<close> and
  \<^verbatim>\<open>account.data.next_mapping_account_key\<close>. From here on the unqualified
  \<open>public_key\<close> and \<open>data\<close> are this record's fields; those of a keypair and of an
  instruction are written \<open>Keypair.public_key\<close> and \<open>TransactionInstruction.data\<close>.
\<close>

record PythMappingData =
  next_mapping_account_key :: PublicKey

record PythMappingAccount =
  public_key :: PublicKey
  data :: PythMappingData

text \<open>
  The reference files (aliases of \<^verbatim>\<open>program_admin.types\<close>): permissions map a
  symbol to a dictionary from account type to the list of publishers; overrides map a
  network to a dictionary from symbol to a boolean.
\<close>

type_synonym ReferencePermissions = "(str, (str, str list) py_dict) py_dict"
type_synonym ReferenceOverrides = "(str, (str, bool) py_dict) py_dict"
type_synonym Network = str

datatype error =
    RuntimeError string
  | OverflowError

section \<open>Linked-list reconstruction: \<^verbatim>\<open>sort_mapping_account_keys\<close>\<close>

text \<open>
  The first loop (util.py, lines 74--84). The state is the pair
  \<^verbatim>\<open>(previous_keys, last_key)\<close>; \<^verbatim>\<open>last_key\<close> starts as \<^verbatim>\<open>None\<close>.
\<close>

fun build_previous_keys ::
  "PythMappingAccount list \<Rightarrow> (PublicKey \<rightharpoonup> PublicKey) \<times> PublicKey option
     \<Rightarrow> (PublicKey \<rightharpoonup> PublicKey) \<times> PublicKey option" where
  "build_previous_keys [] st = st"
| "build_previous_keys (account # accounts) (previous_keys, last_key) =
     (let this_key = public_key account;
          next_key = next_mapping_account_key (data account);
          last_key' = (if next_key = 0 then Some this_key else last_key)
      in build_previous_keys accounts (previous_keys(next_key \<mapsto> this_key), last_key'))"

text \<open>
  The second loop (lines 93--98): \<^verbatim>\<open>while len(accounts) != len(sorted_keys)\<close>. The
  guard is a disequality, so nothing in the loop itself bounds it; \<open>None\<close> stands for
  a loop that never ends. \<open>n\<close> is \<^verbatim>\<open>len(accounts)\<close>.
\<close>

partial_function (option) traverse ::
  "nat \<Rightarrow> (PublicKey \<rightharpoonup> PublicKey) \<Rightarrow> PublicKey list \<Rightarrow> PublicKey \<Rightarrow> PublicKey list option"
where
  "traverse n previous_keys sorted_keys current =
     (if n \<noteq> length sorted_keys then
        traverse n previous_keys (current # sorted_keys)
          (case previous_keys current of Some p \<Rightarrow> p | None \<Rightarrow> current)
      else Some sorted_keys)"

declare traverse.simps [code]

definition sort_mapping_account_keys ::
  "PythMappingAccount list \<Rightarrow> (error + PublicKey list) option" where
  "sort_mapping_account_keys accounts =
     (if accounts = [] then Some (Inr [])
      else case build_previous_keys accounts (Map.empty, None) of
             (previous_keys, None) \<Rightarrow> Some (Inl (RuntimeError ''The linked list has no end''))
           | (previous_keys, Some last_key) \<Rightarrow>
               map_option Inr (traverse (length accounts) previous_keys [] last_key))"

text \<open>Constructor for test inputs: an account with the given key and next key.\<close>

definition mk_account :: "PublicKey \<Rightarrow> PublicKey \<Rightarrow> PythMappingAccount" where
  "mk_account k nxt = \<lparr>public_key = k, data = \<lparr>next_mapping_account_key = nxt\<rparr>\<rparr>"

subsection \<open>Vocabulary of the linked-list claims\<close>

text \<open>
  \<open>is_chain\<close>: the accounts, in this order, are linked head to tail: each account's
  next key is the key of its successor and the last account's next key is zero.
  \<open>valid_chain\<close> adds that the keys are pairwise distinct (no branch, no cycle) and
  that no account has the zero key, so that the head is pointed to by no account and
  the last account is the only one whose next key is zero.
\<close>

fun is_chain :: "PythMappingAccount list \<Rightarrow> bool" where
  "is_chain [] = False"
| "is_chain [a] = (next_mapping_account_key (data a) = 0)"
| "is_chain (a # b # rest) =
     (next_mapping_account_key (data a) = public_key b \<and> is_chain (b # rest))"

definition valid_chain :: "PythMappingAccount list \<Rightarrow> bool" where
  "valid_chain chain \<longleftrightarrow>
     is_chain chain \<and> distinct (map public_key chain) \<and> 0 \<notin> set (map public_key chain)"

text \<open>
  \<open>linked prev ks\<close>: in the reverse index \<open>prev\<close>, every key of \<open>ks\<close> but the first
  has its left neighbour as predecessor; \<open>ks\<close> is a stretch of the backward walk read
  front to back.
\<close>


fun linked :: "(PublicKey \<rightharpoonup> PublicKey) \<Rightarrow> PublicKey list \<Rightarrow> bool" where
  "linked prev [] = True"
| "linked prev [k] = True"
| "linked prev (p # k # ks) = (prev k = Some p \<and> linked prev (k # ks))"

text \<open>
  The accounts carrying a tail marker (next key zero) in input order, and the
  \<^verbatim>\<open>(next_key, this_key)\<close> pairs the first loop stores, in input order.
\<close>

definition tail_accounts :: "PythMappingAccount list \<Rightarrow> PythMappingAccount list" where
  "tail_accounts accounts = filter (\<lambda>a. next_mapping_account_key (data a) = 0) accounts"

definition previous_entries :: "PythMappingAccount list \<Rightarrow> (PublicKey \<times> PublicKey) list" where
  "previous_entries accounts = map (\<lambda>a. (next_mapping_account_key (data a), public_key a)) accounts"


section \<open>Permission overrides: \<^verbatim>\<open>apply_overrides\<close>\<close>

text \<open>
  The dictionary comprehension of line 114, \<^verbatim>\<open>{k: [] for k in value.keys()}\<close>:
  the keys are inserted one by one into a dictionary that starts empty.
\<close>

fun empty_publishers ::
  "str list \<Rightarrow> (str, str list) py_dict \<Rightarrow> (str, str list) py_dict" where
  "empty_publishers [] d = d"
| "empty_publishers (k # ks) d = empty_publishers ks (dict_setitem d k [])"

text \<open>
  The loop of lines 111--116 over \<^verbatim>\<open>ref_permissions.items()\<close>. The test
  \<^verbatim>\<open>key in network_overrides and not network_overrides[key]\<close> holds when the key is
  present with the value \<^verbatim>\<open>False\<close>.
\<close>

fun apply_overrides_loop ::
  "(str \<times> (str, str list) py_dict) list \<Rightarrow> (str, bool) py_dict
     \<Rightarrow> ReferencePermissions \<Rightarrow> ReferencePermissions" where
  "apply_overrides_loop [] network_overrides overridden_permissions = overridden_permissions"
| "apply_overrides_loop ((key, value) # items) network_overrides overridden_permissions =
     apply_overrides_loop items network_overrides
       (case map_of network_overrides key of
          Some False \<Rightarrow>
            dict_setitem overridden_permissions key (empty_publishers (map fst value) [])
        | _ \<Rightarrow> dict_setitem overridden_permissions key value)"

definition apply_overrides ::
  "ReferencePermissions \<Rightarrow> ReferenceOverrides \<Rightarrow> Network \<Rightarrow> ReferencePermissions" where
  "apply_overrides ref_permissions ref_overrides network =
     (let network_overrides = (case map_of ref_overrides network of Some d \<Rightarrow> d | None \<Rightarrow> [])
      in apply_overrides_loop ref_permissions network_overrides [])"

text \<open>
  The claim's condition: the override of the symbol for the network is present and is
  \<^verbatim>\<open>False\<close>.
\<close>

definition revoked :: "ReferenceOverrides \<Rightarrow> Network \<Rightarrow> str \<Rightarrow> bool" where
  "revoked ref_overrides network symbol \<longleftrightarrow>
     (case map_of ref_overrides network of
        None \<Rightarrow> False
      | Some network_overrides \<Rightarrow> map_of network_overrides symbol = Some False)"

section \<open>Signers of a transaction: \<^verbatim>\<open>get_actual_signers\<close>\<close>

text \<open>Python's \<^verbatim>\<open>any\<close> over the booleans an iterable yields.\<close>

fun py_any :: "bool list \<Rightarrow> bool" where
  "py_any [] = False"
| "py_any (x # xs) = (if x then True else py_any xs)"

text \<open>The loop of lines 128--137, with \<^verbatim>\<open>actual_signers\<close> as accumulator.\<close>

fun get_actual_signers_loop ::
  "Keypair list \<Rightarrow> Transaction \<Rightarrow> Keypair list \<Rightarrow> Keypair list" where
  "get_actual_signers_loop [] transaction actual_signers = actual_signers"
| "get_actual_signers_loop (signer # signers) transaction actual_signers =
     (let instruction_has_signer =
            map (\<lambda>instruction.
                   py_any (map (\<lambda>account. Keypair.public_key signer = pubkey account \<and>
                                           is_signer account)
                             (keys instruction)))
                (instructions transaction)
      in get_actual_signers_loop signers transaction
           (if py_any instruction_has_signer then actual_signers @ [signer]
            else actual_signers))"

definition get_actual_signers :: "Keypair list \<Rightarrow> Transaction \<Rightarrow> Keypair list" where
  "get_actual_signers signers transaction = get_actual_signers_loop signers transaction []"

text \<open>
  The claim's condition: the key appears as a signing account in at least one instruction
  of the transaction.
\<close>

definition signs_in :: "Transaction \<Rightarrow> PublicKey \<Rightarrow> bool" where
  "signs_in transaction k \<longleftrightarrow>
     (\<exists>instruction \<in> set (instructions transaction).
        \<exists>account \<in> set (keys instruction). pubkey account = k \<and> is_signer account)"


section \<open>Product metadata: \<^verbatim>\<open>encode_product_metadata\<close>\<close>

text \<open>
  \<^verbatim>\<open>s.encode("utf8")\<close> on the representation fixed above: each \<open>char\<close> becomes
  the byte it stands for. \<open>utf8_decode\<close> is the inverse, \<^verbatim>\<open>b.decode("utf8")\<close>.
\<close>

definition utf8_encode :: "str \<Rightarrow> bytes" where
  "utf8_encode s = map (\<lambda>c. word_of_nat (of_char c)) s"

definition utf8_decode :: "bytes \<Rightarrow> str" where
  "utf8_decode bs = map (\<lambda>b. char_of (unat b)) bs"

text \<open>
  \<^verbatim>\<open>n.to_bytes(length, byteorder="little")\<close> for a non-negative \<open>n\<close>: the \<open>len\<close>
  low-order bytes, least significant first, or \<^verbatim>\<open>OverflowError\<close> when \<open>n\<close> does
  not fit.
\<close>

fun little_endian :: "nat \<Rightarrow> nat \<Rightarrow> bytes" where
  "little_endian 0 n = []"
| "little_endian (Suc len) n = word_of_nat (n mod 256) # little_endian len (n div 256)"

definition to_bytes :: "nat \<Rightarrow> nat \<Rightarrow> error + bytes" where
  "to_bytes n len = (if n < 256 ^ len then Inr (little_endian len n) else Inl OverflowError)"

text \<open>
  The loop of lines 53--59 over \<^verbatim>\<open>data.items()\<close>, in the order of the statements:
  a failing \<^verbatim>\<open>to_bytes\<close> ends the call with its exception. The parameter is written
  \<open>data'\<close>, since \<open>data\<close> is a field of the mapping account.
\<close>

fun encode_product_metadata_loop :: "(str \<times> str) list \<Rightarrow> bytes \<Rightarrow> error + bytes" where
  "encode_product_metadata_loop [] buffer = Inr buffer"
| "encode_product_metadata_loop ((key, value) # items) buffer =
     (let key_bytes = utf8_encode key in
      case to_bytes (length key_bytes) 1 of
        Inl e \<Rightarrow> Inl e
      | Inr key_len \<Rightarrow>
          (let value_bytes = utf8_encode value in
           case to_bytes (length value_bytes) 1 of
             Inl e \<Rightarrow> Inl e
           | Inr value_len \<Rightarrow>
               encode_product_metadata_loop items
                 (buffer @ key_len @ key_bytes @ value_len @ value_bytes)))"

definition encode_product_metadata :: "(str, str) py_dict \<Rightarrow> error + bytes" where
  "encode_product_metadata data' = encode_product_metadata_loop data' []"

text \<open>
  The claim's layout of one entry,
  \<^verbatim>\<open>len(key) ++ key_bytes ++ len(value) ++ value_bytes\<close>, and its condition on an
  entry: key and value each encode to at most 255 bytes.
\<close>

definition length_byte :: "bytes \<Rightarrow> 8 word" where
  "length_byte bs = word_of_nat (length bs)"

definition entry_bytes :: "str \<times> str \<Rightarrow> bytes" where
  "entry_bytes = (\<lambda>(key, value).
     [length_byte (utf8_encode key)] @ utf8_encode key @
     [length_byte (utf8_encode value)] @ utf8_encode value)"

definition fits :: "str \<times> str \<Rightarrow> bool" where
  "fits = (\<lambda>(key, value). length (utf8_encode key) \<le> 255 \<and> length (utf8_encode value) \<le> 255)"

text \<open>
  Modelled from the spec: the decoder of product metadata, which is not in
  \<^verbatim>\<open>util.py\<close>. It reads what section 4.4 of the specification says an entry is,
  a length byte, that many bytes of key, a length byte, that many bytes of value, until
  the buffer is exhausted, and stores each entry in a dictionary; \<open>None\<close> is a buffer
  that ends inside an entry.
\<close>

function decode_product_metadata_loop :: "bytes \<Rightarrow> (str, str) py_dict \<Rightarrow> (str, str) py_dict option" where
  "decode_product_metadata_loop [] d = Some d"
| "decode_product_metadata_loop (key_len # rest) d =
     (if length rest < unat key_len then None
      else case drop (unat key_len) rest of
             [] \<Rightarrow> None
           | value_len # rest' \<Rightarrow>
               if length rest' < unat value_len then None
               else decode_product_metadata_loop (drop (unat value_len) rest')
                      (dict_setitem d (utf8_decode (take (unat key_len) rest))
                                      (utf8_decode (take (unat value_len) rest'))))"
  by pat_completeness auto
termination
proof (relation "measure (\<lambda>(bs, d). length bs)", goal_cases)
  case 1
  show ?case by simp
next
  case (2 key_len rest d value_len rest')
  have "length (value_len # rest') \<le> length rest"
    using 2(2) by (metis length_drop diff_le_self)
  then show ?case by simp
qed

definition decode_product_metadata :: "bytes \<Rightarrow> (str, str) py_dict option" where
  "decode_product_metadata bs = decode_product_metadata_loop bs []"


section \<open>Linked-list reconstruction: proofs\<close>

subsection \<open>What the two loops compute\<close>

lemma build_previous_keys_fst:
  "fst (build_previous_keys accounts (m, lk)) = m ++ map_of (rev (previous_entries accounts))"
  by (induction accounts arbitrary: m lk) (simp_all add: previous_entries_def Let_def map_add_upd_left)

lemma build_previous_keys_snd:
  "snd (build_previous_keys accounts (m, lk)) =
     (if tail_accounts accounts = [] then lk else Some (public_key (last (tail_accounts accounts))))"
  by (induction accounts arbitrary: m lk) (simp_all add: tail_accounts_def Let_def)

lemma traverse_terminates:
  "length sorted_keys \<le> n \<Longrightarrow>
   \<exists>pre. traverse n prev sorted_keys current = Some (pre @ sorted_keys) \<and>
         length (pre @ sorted_keys) = n"
proof (induction "n - length sorted_keys" arbitrary: sorted_keys current)
  case 0
  then show ?case by (simp add: traverse.simps)
next
  case (Suc d)
  then have "d = n - length (current # sorted_keys)" "length (current # sorted_keys) \<le> n" by auto
  from Suc.hyps(1)[OF this] obtain pre where
    "traverse n prev (current # sorted_keys) (case prev current of Some p \<Rightarrow> p | None \<Rightarrow> current)
       = Some (pre @ current # sorted_keys)"
    "length (pre @ current # sorted_keys) = n" by blast
  moreover have "n \<noteq> length sorted_keys" using Suc.hyps(2) by auto
  ultimately show ?case by (subst traverse.simps) (auto intro: exI[of _ "pre @ [current]"])
qed

lemma traverse_start:
  assumes "0 < n"
  shows "\<exists>pre. traverse n prev [] current = Some (pre @ [current]) \<and> length (pre @ [current]) = n"
proof -
  have "length [current] \<le> n" using assms by simp
  from traverse_terminates[OF this] obtain pre where
    "traverse n prev [current] (case prev current of Some p \<Rightarrow> p | None \<Rightarrow> current) = Some (pre @ [current])"
    "length (pre @ [current]) = n" by blast
  then show ?thesis using assms by (subst traverse.simps) auto
qed

lemma linked_snoc:
  "xs \<noteq> [] \<Longrightarrow> linked prev (xs @ [x]) \<longleftrightarrow> linked prev xs \<and> prev x = Some (last xs)"
  by (induction prev xs rule: linked.induct) auto

lemma traverse_linked:
  "linked prev seg \<Longrightarrow> seg \<noteq> [] \<Longrightarrow> length sorted_keys + length seg \<le> n \<Longrightarrow>
   traverse n prev sorted_keys (last seg) =
   traverse n prev (seg @ sorted_keys) (case prev (hd seg) of Some p \<Rightarrow> p | None \<Rightarrow> hd seg)"
proof (induction seg arbitrary: sorted_keys rule: rev_induct)
  case Nil
  then show ?case by simp
next
  case (snoc x xs)
  have ne: "n \<noteq> length sorted_keys" using snoc.prems by auto
  show ?case
  proof (cases "xs = []")
    case True
    then show ?thesis using ne by (subst traverse.simps) (simp split: option.split)
  next
    case False
    have lk: "linked prev xs \<and> prev x = Some (last xs)"
      using snoc.prems(1) False by (simp add: linked_snoc)
    have "traverse n prev sorted_keys (last (xs @ [x])) = traverse n prev (x # sorted_keys) (last xs)"
      using ne lk by (subst traverse.simps) simp
    also have "\<dots> = traverse n prev (xs @ x # sorted_keys) (case prev (hd xs) of Some p \<Rightarrow> p | None \<Rightarrow> hd xs)"
      using snoc.IH[of "x # sorted_keys"] lk False snoc.prems by simp
    finally show ?thesis using False by (simp split: option.split)
  qed
qed

lemma traverse_pad:
  "prev current = None \<Longrightarrow> length sorted_keys \<le> n \<Longrightarrow>
   traverse n prev sorted_keys current = Some (replicate (n - length sorted_keys) current @ sorted_keys)"
proof (induction "n - length sorted_keys" arbitrary: sorted_keys)
  case 0
  then show ?case by (simp add: traverse.simps)
next
  case (Suc d)
  then have "d = n - length (current # sorted_keys)" "length (current # sorted_keys) \<le> n" by auto
  from Suc.hyps(1)[OF this(1) Suc.prems(1) this(2)]
  have "traverse n prev (current # sorted_keys) current =
        Some (replicate (n - length (current # sorted_keys)) current @ current # sorted_keys)" .
  moreover have "n \<noteq> length sorted_keys" using Suc.hyps(2) by auto
  moreover have "replicate (n - length (current # sorted_keys)) current @ current # sorted_keys
     = replicate (n - length sorted_keys) current @ sorted_keys"
    using Suc.hyps(2) by (simp add: replicate_app_Cons_same Suc_diff_Suc flip: replicate_Suc)
  ultimately show ?case using Suc.prems(1) by (subst traverse.simps) simp
qed


lemma sort_no_tail:
  "accounts \<noteq> [] \<Longrightarrow> tail_accounts accounts = [] \<Longrightarrow>
   sort_mapping_account_keys accounts = Some (Inl (RuntimeError ''The linked list has no end''))"
  using build_previous_keys_snd[of accounts Map.empty None]
  by (cases "build_previous_keys accounts (Map.empty, None)")
     (simp add: sort_mapping_account_keys_def)

lemma sort_with_tail:
  assumes "tail_accounts accounts \<noteq> []"
  shows "sort_mapping_account_keys accounts =
         map_option Inr (traverse (length accounts) (map_of (rev (previous_entries accounts))) []
                           (public_key (last (tail_accounts accounts))))"
proof -
  have ne: "accounts \<noteq> []" using assms by (auto simp: tail_accounts_def)
  obtain pk lk where b: "build_previous_keys accounts (Map.empty, None) = (pk, lk)"
    by (cases "build_previous_keys accounts (Map.empty, None)")
  have "pk = map_of (rev (previous_entries accounts))"
    using build_previous_keys_fst[of accounts Map.empty None] b by simp
  moreover have "lk = Some (public_key (last (tail_accounts accounts)))"
    using build_previous_keys_snd[of accounts Map.empty None] b assms by simp
  ultimately show ?thesis using ne b by (simp add: sort_mapping_account_keys_def)
qed

lemma is_chain_last:
  "is_chain chain \<Longrightarrow> chain \<noteq> [] \<and> next_mapping_account_key (data (last chain)) = 0"
  by (induction chain rule: is_chain.induct) auto

lemma is_chain_nexts:
  "is_chain chain \<Longrightarrow>
   map (\<lambda>a. next_mapping_account_key (data a)) chain = tl (map public_key chain) @ [0]"
  by (induction chain rule: is_chain.induct) auto

lemma valid_chain_only_tail:
  "is_chain chain \<Longrightarrow> 0 \<notin> set (map public_key chain) \<Longrightarrow> a \<in> set chain \<Longrightarrow>
   next_mapping_account_key (data a) = 0 \<Longrightarrow> a = last chain"
  by (induction chain rule: is_chain.induct) auto

lemma is_chain_linked:
  "is_chain chain \<Longrightarrow>
   \<forall>a \<in> set chain. prev (next_mapping_account_key (data a)) = Some (public_key a) \<Longrightarrow>
   linked prev (map public_key chain)"
  by (induction chain rule: is_chain.induct) auto

lemma sort_valid_chain:
  assumes v: "valid_chain chain" and p: "mset accounts = mset chain"
  shows "sort_mapping_account_keys accounts = Some (Inr (map public_key chain))"
proof -
  let ?prev = "map_of (rev (previous_entries accounts))"
  let ?ks = "map public_key chain"
  have ch: "is_chain chain" and dk: "distinct ?ks" and nz: "0 \<notin> set ?ks"
    using v by (auto simp: valid_chain_def)
  have set_eq: "set accounts = set chain" using p by (rule mset_eq_setD)
  have len_eq: "length accounts = length chain" using p by (rule mset_eq_length)
  have ne: "chain \<noteq> []" and last0: "next_mapping_account_key (data (last chain)) = 0"
    using is_chain_last[OF ch] by auto
  \<comment> \<open>the tail found by the first loop\<close>
  have "last chain \<in> set accounts" using ne set_eq by simp
  then have t: "tail_accounts accounts \<noteq> []"
    using last0 by (auto simp: tail_accounts_def filter_empty_conv)
  then have "last (tail_accounts accounts) \<in> set (tail_accounts accounts)" by (rule last_in_set)
  then have "last (tail_accounts accounts) = last chain"
    using valid_chain_only_tail[OF ch nz] set_eq by (auto simp: tail_accounts_def)
  then have lk: "public_key (last (tail_accounts accounts)) = last ?ks"
    using ne by (simp add: last_map)
  \<comment> \<open>the reverse index\<close>
  have "mset (map fst (previous_entries accounts)) = mset (map (\<lambda>a. next_mapping_account_key (data a)) chain)"
    using p by (simp add: previous_entries_def comp_def)
  moreover have "distinct (map (\<lambda>a. next_mapping_account_key (data a)) chain)"
  proof -
    have "set (tl ?ks) \<subseteq> set ?ks" by (cases chain) auto
    then have "0 \<notin> set (tl ?ks)" using nz by blast
    then show ?thesis using dk by (simp add: is_chain_nexts[OF ch] distinct_tl)
  qed
  ultimately have "distinct (map fst (previous_entries accounts))"
    by (metis mset_eq_imp_distinct_iff)
  then have "distinct (map fst (rev (previous_entries accounts)))" by (simp add: rev_map[symmetric])
  then have "\<forall>a \<in> set chain. ?prev (next_mapping_account_key (data a)) = Some (public_key a)"
    using set_eq by (auto simp: previous_entries_def)
  then have l: "linked ?prev ?ks" by (rule is_chain_linked[OF ch])
  have "traverse (length accounts) ?prev [] (last ?ks) =
        traverse (length accounts) ?prev ?ks (case ?prev (hd ?ks) of Some p \<Rightarrow> p | None \<Rightarrow> hd ?ks)"
    using traverse_linked[OF l, of "[]" "length accounts"] ne len_eq by simp
  also have "\<dots> = Some ?ks" using len_eq by (subst traverse.simps) simp
  finally show ?thesis using lk by (simp add: sort_with_tail[OF t])
qed


subsection \<open>The claims about \<^verbatim>\<open>sort_mapping_account_keys\<close>\<close>

text \<open>
  C1: for every collection of mapping accounts that is a permutation of a single valid
  chain, \<open>sort_mapping_account_keys\<close> returns the keys in traversal order from head to
  tail; in particular, for the chain A, B, C given in the order C, A, B it returns
  A, B, C.
\<close>

theorem sort_mapping_account_keys_valid_chain:
  "(valid_chain chain \<and> mset accounts = mset chain \<longrightarrow>
      sort_mapping_account_keys accounts = Some (Inr (map public_key chain))) \<and>
   (distinct [A, B, C] \<and> 0 \<notin> {A, B, C} \<longrightarrow>
      sort_mapping_account_keys [mk_account C 0, mk_account A B, mk_account B C] = Some (Inr [A, B, C]))"
proof (intro conjI impI)
  assume "valid_chain chain \<and> mset accounts = mset chain"
  then show "sort_mapping_account_keys accounts = Some (Inr (map public_key chain))"
    using sort_valid_chain by blast
next
  assume a: "distinct [A, B, C] \<and> 0 \<notin> {A, B, C}"
  let ?chain = "[mk_account A B, mk_account B C, mk_account C 0]"
  have "valid_chain ?chain" using a by (auto simp: valid_chain_def mk_account_def)
  moreover have "mset [mk_account C 0, mk_account A B, mk_account B C] = mset ?chain" by simp
  ultimately have "sort_mapping_account_keys [mk_account C 0, mk_account A B, mk_account B C]
      = Some (Inr (map public_key ?chain))" by (rule sort_valid_chain)
  then show "sort_mapping_account_keys [mk_account C 0, mk_account A B, mk_account B C] = Some (Inr [A, B, C])"
    by (simp add: mk_account_def)
qed


theorem sort_mapping_account_keys_valid_chain_witness:
  "valid_chain [mk_account 1 2, mk_account 2 3, mk_account 3 0] \<and>
   mset [mk_account 3 0, mk_account 1 2, mk_account 2 3] = mset [mk_account 1 2, mk_account 2 3, mk_account 3 0] \<and>
   distinct [1, 2, 3 :: PublicKey] \<and> 0 \<notin> {1, 2, 3 :: PublicKey} \<and>
   sort_mapping_account_keys [mk_account 3 0, mk_account 1 2, mk_account 2 3] = Some (Inr [1, 2, 3])"
  using sort_mapping_account_keys_valid_chain [of "[mk_account 1 2, mk_account 2 3, mk_account 3 0]" "[mk_account 3 0, mk_account 1 2, mk_account 2 3]" 1 2 3]
  by (simp add: valid_chain_def mk_account_def)

text \<open>
  C5 (as amended): when the collection contains a tail but the backward walk reaches,
  after fewer keys than the input count, a key with no predecessor, no error is raised:
  the guard of line 97 keeps \<^verbatim>\<open>current\<close> where it is, and the result is the keys
  walked so far, preceded by as many repetitions of the key without predecessor as are
  needed to reach the input count.
\<close>

theorem sort_mapping_account_keys_pads_broken_list:
  assumes b: "build_previous_keys accounts (Map.empty, None) = (previous_keys, Some last_key)"
      and l: "linked previous_keys seg" and ne: "seg \<noteq> []" and la: "last seg = last_key"
      and hd: "previous_keys (hd seg) = None"
      and len: "length seg < length accounts"
  shows "sort_mapping_account_keys accounts =
         Some (Inr (replicate (length accounts - length seg) (hd seg) @ seg))"
proof -
  have "accounts \<noteq> []" using len by auto
  then have "sort_mapping_account_keys accounts =
        map_option Inr (traverse (length accounts) previous_keys [] (last seg))"
    using b la by (simp add: sort_mapping_account_keys_def)
  also have "traverse (length accounts) previous_keys [] (last seg) =
        traverse (length accounts) previous_keys seg (hd seg)"
    using traverse_linked[OF l ne, of "[]" "length accounts"] len hd by simp
  also have "\<dots> = Some (replicate (length accounts - length seg) (hd seg) @ seg)"
    using traverse_pad[of previous_keys "hd seg" seg "length accounts"] hd len by simp
  finally show ?thesis by simp
qed


theorem sort_mapping_account_keys_pads_broken_list_witness:
  "build_previous_keys [mk_account 1 0, mk_account 3 7, mk_account 2 9] (Map.empty, None) =
     ([0 \<mapsto> 1, 7 \<mapsto> 3, 9 \<mapsto> 2], Some 1) \<and>
   linked [0 \<mapsto> 1, 7 \<mapsto> 3, 9 \<mapsto> 2] [1] \<and> [1 :: PublicKey] \<noteq> [] \<and> last [1 :: PublicKey] = 1 \<and>
   [0 \<mapsto> 1, 7 \<mapsto> 3, 9 \<mapsto> 2] (hd [1 :: PublicKey]) = (None :: PublicKey option) \<and>
   length [1 :: PublicKey] < length [mk_account 1 0, mk_account 3 7, mk_account 2 9] \<and>
   sort_mapping_account_keys [mk_account 1 0, mk_account 3 7, mk_account 2 9] = Some (Inr [1, 1, 1])"
  using sort_mapping_account_keys_pads_broken_list
    [of "[mk_account 1 0, mk_account 3 7, mk_account 2 9]" "[0 \<mapsto> 1, 7 \<mapsto> 3, 9 \<mapsto> 2]" 1 "[1]"]
  by (simp add: mk_account_def)

theorem sort_mapping_account_keys_broken_list_counterexample:
  "sort_mapping_account_keys [mk_account 1 0, mk_account 2 7] = Some (Inr [1, 1])"
  by (simp add: sort_mapping_account_keys_def mk_account_def traverse.simps)

text \<open>
  C6 (as amended): a non-empty collection in which no account has a zero next key fails
  with the error "The linked list has no end"; a collection with two or more tail
  markers does not fail: the last marked account in input order is taken as the tail,
  and a sequence of the input length ending with its key is returned.
\<close>

theorem sort_mapping_account_keys_tail_markers:
  "(accounts \<noteq> [] \<and> (\<forall>a \<in> set accounts. next_mapping_account_key (data a) \<noteq> 0) \<longrightarrow>
      sort_mapping_account_keys accounts =
        Some (Inl (RuntimeError ''The linked list has no end''))) \<and>
   (2 \<le> length (tail_accounts accounts') \<longrightarrow>
      (\<exists>pre. sort_mapping_account_keys accounts' =
               Some (Inr (pre @ [public_key (last (tail_accounts accounts'))])) \<and>
             length pre + 1 = length accounts'))"
proof (intro conjI impI)
  assume "accounts \<noteq> [] \<and> (\<forall>a \<in> set accounts. next_mapping_account_key (data a) \<noteq> 0)"
  then have "accounts \<noteq> []" "tail_accounts accounts = []"
    by (auto simp: tail_accounts_def filter_empty_conv)
  then show "sort_mapping_account_keys accounts =
      Some (Inl (RuntimeError ''The linked list has no end''))"
    by (rule sort_no_tail)
next
  assume "2 \<le> length (tail_accounts accounts')"
  then have t: "tail_accounts accounts' \<noteq> []" by auto
  then have "0 < length accounts'" by (auto simp: tail_accounts_def)
  from traverse_start[OF this, of "map_of (rev (previous_entries accounts'))"
      "public_key (last (tail_accounts accounts'))"]
  show "\<exists>pre. sort_mapping_account_keys accounts' =
               Some (Inr (pre @ [public_key (last (tail_accounts accounts'))])) \<and>
             length pre + 1 = length accounts'"
    by (auto simp: sort_with_tail[OF t])
qed

theorem sort_mapping_account_keys_tail_markers_witness:
  "[mk_account 1 5, mk_account 2 7] \<noteq> [] \<and>
   list_all (\<lambda>a. next_mapping_account_key (data a) \<noteq> 0) [mk_account 1 5, mk_account 2 7] \<and>
   sort_mapping_account_keys [mk_account 1 5, mk_account 2 7] =
     Some (Inl (RuntimeError ''The linked list has no end'')) \<and>
   2 \<le> length (tail_accounts [mk_account 1 0, mk_account 2 0, mk_account 3 1]) \<and>
   (\<exists>pre. sort_mapping_account_keys [mk_account 1 0, mk_account 2 0, mk_account 3 1] =
            Some (Inr (pre @ [2])) \<and> length pre + 1 = 3)"
  using sort_mapping_account_keys_tail_markers
    [of "[mk_account 1 5, mk_account 2 7]" "[mk_account 1 0, mk_account 2 0, mk_account 3 1]"]
  by (auto simp add: mk_account_def tail_accounts_def)

theorem sort_mapping_account_keys_two_tails_counterexample:
  "sort_mapping_account_keys [mk_account 1 0, mk_account 2 0] = Some (Inr [2, 2])"
  by (simp add: sort_mapping_account_keys_def mk_account_def traverse.simps)

text \<open>
  C9: for the empty collection of mapping accounts, \<open>sort_mapping_account_keys\<close>
  returns the empty sequence and raises no error.
\<close>

theorem sort_mapping_account_keys_empty:
  "sort_mapping_account_keys [] = Some (Inr [])"
  by (simp add: sort_mapping_account_keys_def)

text \<open>
  C10: whenever at least one account has a zero next key, \<open>sort_mapping_account_keys\<close>
  terminates and returns a list as long as the input, whether or not the accounts form a
  single valid chain.
\<close>

theorem sort_mapping_account_keys_returns_input_length:
  assumes "\<exists>a \<in> set accounts. next_mapping_account_key (data a) = 0"
  shows "\<exists>ys. sort_mapping_account_keys accounts = Some (Inr ys) \<and> length ys = length accounts"
proof -
  have t: "tail_accounts accounts \<noteq> []" using assms by (auto simp: tail_accounts_def filter_empty_conv)
  have "0 < length accounts" using assms by auto
  from traverse_start[OF this, of "map_of (rev (previous_entries accounts))" "public_key (last (tail_accounts accounts))"]
  show ?thesis by (auto simp: sort_with_tail[OF t])
qed


theorem sort_mapping_account_keys_returns_input_length_witness:
  "(\<exists>a \<in> set [mk_account 1 0, mk_account 2 7, mk_account 3 9].
      next_mapping_account_key (data a) = 0) \<and>
   (\<exists>ys. sort_mapping_account_keys [mk_account 1 0, mk_account 2 7, mk_account 3 9] = Some (Inr ys) \<and>
         length ys = length [mk_account 1 0, mk_account 2 7, mk_account 3 9])"
  using sort_mapping_account_keys_returns_input_length
    [of "[mk_account 1 0, mk_account 2 7, mk_account 3 9]"]
  by (simp add: mk_account_def)

section \<open>Permission overrides: proofs\<close>

lemma update_append_fresh:
  "k \<notin> fst ` set d \<Longrightarrow> AList.update k v d = d @ [(k, v)]"
  by (induction d) auto

lemma empty_publishers_eq:
  "distinct (map fst d @ ks) \<Longrightarrow> empty_publishers ks d = d @ map (\<lambda>k. (k, [])) ks"
proof (induction ks arbitrary: d)
  case Nil
  then show ?case by simp
next
  case (Cons k ks)
  have "dict_setitem d k [] = d @ [(k, [])]"
    using Cons.prems by (simp add: dict_setitem_def update_append_fresh)
  moreover have "distinct (map fst (d @ [(k, [])]) @ ks)" using Cons.prems by auto
  ultimately show ?case using Cons.IH[of "d @ [(k, [])]"] by simp
qed

lemma apply_overrides_loop_eq:
  "distinct (map fst out @ map fst items) \<Longrightarrow>
   \<forall>(key, value) \<in> set items. distinct (map fst value) \<Longrightarrow>
   apply_overrides_loop items network_overrides out =
     out @ map (\<lambda>(key, value).
                 (key, if map_of network_overrides key = Some False
                       then map (\<lambda>(k, publishers). (k, [])) value else value)) items"
proof (induction items arbitrary: out)
  case Nil
  then show ?case by simp
next
  case (Cons item items)
  obtain key "value" where item: "item = (key, value)" by (cases item)
  let ?v = "if map_of network_overrides key = Some False
            then map (\<lambda>(k, publishers). (k, [])) value else value"
  have fresh: "key \<notin> fst ` set out" using Cons.prems(1) item by auto
  have dv: "distinct (map fst value)" using Cons.prems(2) item by simp
  have ep: "empty_publishers (map fst value) [] = map (\<lambda>(k, publishers). (k, [])) value"
    using empty_publishers_eq[of "[]" "map fst value"] dv
    by (simp add: comp_def case_prod_unfold)
  have step: "(case map_of network_overrides key of
          Some False \<Rightarrow> dict_setitem out key (empty_publishers (map fst value) [])
        | _ \<Rightarrow> dict_setitem out key value) = out @ [(key, ?v)]"
    using fresh ep
    by (auto simp: dict_setitem_def update_append_fresh split: option.split bool.split)
  have "distinct (map fst (out @ [(key, ?v)]) @ map fst items)"
    using Cons.prems(1) item by auto
  moreover have "\<forall>(key, value) \<in> set items. distinct (map fst value)"
    using Cons.prems(2) by simp
  ultimately have "apply_overrides_loop items network_overrides (out @ [(key, ?v)]) =
      (out @ [(key, ?v)]) @ map (\<lambda>(key, value).
                 (key, if map_of network_overrides key = Some False
                       then map (\<lambda>(k, publishers). (k, [])) value else value)) items"
    by (rule Cons.IH)
  then show ?case using step item by simp
qed

text \<open>
  C2: \<open>apply_overrides\<close> binds each symbol whose override for the network is present
  and false to the same account-type keys, each with an empty publisher list, and every
  other symbol to its input value; the symbols and their order are those of the input;
  a network absent from the overrides leaves the permissions as they are. The
  hypotheses say that the input dictionaries are well formed (distinct keys).
\<close>

theorem apply_overrides_resolves:
  assumes "distinct (map fst ref_permissions)"
      and "\<forall>(symbol, value) \<in> set ref_permissions. distinct (map fst value)"
  shows "apply_overrides ref_permissions ref_overrides network =
           map (\<lambda>(symbol, value).
                  (symbol, if revoked ref_overrides network symbol
                           then map (\<lambda>(account_type, publishers). (account_type, [])) value
                           else value)) ref_permissions \<and>
         (map_of ref_overrides' network' = None \<longrightarrow>
            apply_overrides ref_permissions ref_overrides' network' = ref_permissions)"
proof -
  have eq: "apply_overrides ref_permissions ovr net =
           map (\<lambda>(symbol, value).
                  (symbol, if revoked ovr net symbol
                           then map (\<lambda>(account_type, publishers). (account_type, [])) value
                           else value)) ref_permissions" for ovr net
    using apply_overrides_loop_eq[of "[]" ref_permissions] assms
    by (cases "map_of ovr net") (simp_all add: apply_overrides_def revoked_def)
  have "apply_overrides ref_permissions ref_overrides' network' = ref_permissions"
    if "map_of ref_overrides' network' = None"
    using that by (simp add: eq revoked_def case_prod_unfold)
  then show ?thesis using eq by blast
qed

theorem apply_overrides_resolves_witness:
  "distinct (map fst [(''BTC/USD'', [(''price'', [''pub1'', ''pub2'']), (''product'', [''pub1''])]),
                      (''ETH/USD'', [(''price'', [''pub3''])])]) \<and>
   list_all (\<lambda>(symbol, value). distinct (map fst value))
     [(''BTC/USD'', [(''price'', [''pub1'', ''pub2'']), (''product'', [''pub1''])]),
      (''ETH/USD'', [(''price'', [''pub3''])])] \<and>
   apply_overrides
     [(''BTC/USD'', [(''price'', [''pub1'', ''pub2'']), (''product'', [''pub1''])]),
      (''ETH/USD'', [(''price'', [''pub3''])])]
     [(''mainnet'', [(''BTC/USD'', False), (''ETH/USD'', True)])] ''mainnet'' =
     [(''BTC/USD'', [(''price'', []), (''product'', [])]),
      (''ETH/USD'', [(''price'', [''pub3''])])] \<and>
   map_of [(''mainnet'', [(''BTC/USD'', False), (''ETH/USD'', True)])] ''devnet'' = None \<and>
   apply_overrides
     [(''BTC/USD'', [(''price'', [''pub1'', ''pub2'']), (''product'', [''pub1''])]),
      (''ETH/USD'', [(''price'', [''pub3''])])]
     [(''mainnet'', [(''BTC/USD'', False), (''ETH/USD'', True)])] ''devnet'' =
     [(''BTC/USD'', [(''price'', [''pub1'', ''pub2'']), (''product'', [''pub1''])]),
      (''ETH/USD'', [(''price'', [''pub3''])])]"
  using apply_overrides_resolves
    [of "[(''BTC/USD'', [(''price'', [''pub1'', ''pub2'']), (''product'', [''pub1''])]),
          (''ETH/USD'', [(''price'', [''pub3''])])]"
        "[(''mainnet'', [(''BTC/USD'', False), (''ETH/USD'', True)])]" "''mainnet''"
        "[(''mainnet'', [(''BTC/USD'', False), (''ETH/USD'', True)])]" "''devnet''"]
  by (simp add: revoked_def)

section \<open>Signers of a transaction: proofs\<close>

lemma py_any_map: "py_any (map f xs) \<longleftrightarrow> (\<exists>x \<in> set xs. f x)"
  by (induction xs) auto

lemma instruction_has_signer_iff:
  "py_any (map (\<lambda>instruction.
             py_any (map (\<lambda>account. k = pubkey account \<and> is_signer account) (keys instruction)))
          (instructions transaction)) \<longleftrightarrow> signs_in transaction k"
  by (auto simp: py_any_map signs_in_def)

lemma get_actual_signers_loop_filter:
  "get_actual_signers_loop signers transaction acc =
   acc @ filter (\<lambda>s. signs_in transaction (Keypair.public_key s)) signers"
  by (induction signers arbitrary: acc) (simp_all add: instruction_has_signer_iff)

text \<open>
  C3: \<open>get_actual_signers\<close> returns exactly the keypairs of the pool whose public key
  appears as a signing account in at least one instruction of the transaction, in the
  pool's order: the result is the pool filtered by that condition.
\<close>

theorem get_actual_signers_exact:
  "get_actual_signers signers transaction =
     filter (\<lambda>signer. signs_in transaction (Keypair.public_key signer)) signers"
  by (simp add: get_actual_signers_def get_actual_signers_loop_filter)

section \<open>Product metadata: proofs\<close>

lemma to_bytes_1:
  "to_bytes n (Suc 0) = (if n \<le> 255 then Inr [word_of_nat n] else Inl OverflowError)"
  by (simp add: to_bytes_def)

lemma unat_length_byte: "length bs \<le> 255 \<Longrightarrow> unat (length_byte bs) = length bs"
  by (simp add: length_byte_def unat_of_nat)

lemma utf8_decode_encode: "utf8_decode (utf8_encode s) = s"
  by (simp add: utf8_decode_def utf8_encode_def comp_def unat_of_nat)

lemma encode_loop_step:
  "encode_product_metadata_loop ((key, value) # items) buffer =
     (if fits (key, value)
      then encode_product_metadata_loop items (buffer @ entry_bytes (key, value))
      else Inl OverflowError)"
proof (cases "length (utf8_encode key) \<le> 255")
  case True
  then show ?thesis
    by (cases "length (utf8_encode value) \<le> 255")
       (simp_all add: fits_def to_bytes_1 entry_bytes_def length_byte_def Let_def)
next
  case False
  then show ?thesis by (simp add: fits_def to_bytes_1 Let_def)
qed

lemma encode_loop_fits:
  "list_all fits items \<Longrightarrow>
   encode_product_metadata_loop items buffer = Inr (buffer @ concat (map entry_bytes items))"
proof (induction items arbitrary: buffer)
  case Nil
  then show ?case by simp
next
  case (Cons item items)
  then show ?case
    by (cases item) (simp add: encode_loop_step del: encode_product_metadata_loop.simps)
qed

lemma encode_loop_overflow:
  "\<not> list_all fits items \<Longrightarrow> encode_product_metadata_loop items buffer = Inl OverflowError"
proof (induction items arbitrary: buffer)
  case Nil
  then show ?case by simp
next
  case (Cons item items)
  then show ?case
    by (cases item) (simp add: encode_loop_step del: encode_product_metadata_loop.simps)
qed

lemma decode_entry:
  assumes "fits (key, value)"
  shows "decode_product_metadata_loop (entry_bytes (key, value) @ rest) d =
         decode_product_metadata_loop rest (dict_setitem d key value)"
proof -
  have k: "unat (length_byte (utf8_encode key)) = length (utf8_encode key)"
   and v: "unat (length_byte (utf8_encode value)) = length (utf8_encode value)"
    using assms by (simp_all add: fits_def unat_length_byte)
  show ?thesis
    by (simp add: entry_bytes_def k v utf8_decode_encode)
qed

lemma decode_loop_entries:
  "list_all fits items \<Longrightarrow> distinct (map fst d @ map fst items) \<Longrightarrow>
   decode_product_metadata_loop (concat (map entry_bytes items)) d = Some (d @ items)"
proof (induction items arbitrary: d)
  case Nil
  then show ?case by simp
next
  case (Cons item items)
  obtain key "value" where item: "item = (key, value)" by (cases item)
  have f: "fits (key, value)" and fs: "list_all fits items" using Cons.prems(1) item by auto
  have up: "dict_setitem d key value = d @ [(key, value)]"
    using Cons.prems(2) item by (auto simp: dict_setitem_def update_append_fresh)
  have "distinct (map fst (d @ [(key, value)]) @ map fst items)"
    using Cons.prems(2) item by auto
  from Cons.IH[OF fs this] show ?case
    by (simp add: item decode_entry[OF f] up)
qed

text \<open>
  C7: when every key and value encodes to at most 255 bytes, \<open>encode_product_metadata\<close>
  returns the concatenation, in the mapping's order, of the entries' layouts, each
  length being one byte whose value is the length; when some key or value exceeds 255
  bytes the call fails with \<^verbatim>\<open>OverflowError\<close> and produces no output.
\<close>

theorem encode_product_metadata_layout:
  "((\<forall>(key, value) \<in> set data'.
        length (utf8_encode key) \<le> 255 \<and> length (utf8_encode value) \<le> 255) \<longrightarrow>
      encode_product_metadata data' = Inr (concat (map entry_bytes data')) \<and>
      (\<forall>(key, value) \<in> set data'.
         unat (length_byte (utf8_encode key)) = length (utf8_encode key) \<and>
         unat (length_byte (utf8_encode value)) = length (utf8_encode value))) \<and>
   ((\<exists>(key, value) \<in> set data''.
        255 < length (utf8_encode key) \<or> 255 < length (utf8_encode value)) \<longrightarrow>
      encode_product_metadata data'' = Inl OverflowError)"
proof (intro conjI impI)
  assume a: "\<forall>(key, value) \<in> set data'.
        length (utf8_encode key) \<le> 255 \<and> length (utf8_encode value) \<le> 255"
  then have "list_all fits data'" by (auto simp: list_all_iff fits_def)
  then show "encode_product_metadata data' = Inr (concat (map entry_bytes data'))"
    by (simp add: encode_product_metadata_def encode_loop_fits)
  show "\<forall>(key, value) \<in> set data'.
         unat (length_byte (utf8_encode key)) = length (utf8_encode key) \<and>
         unat (length_byte (utf8_encode value)) = length (utf8_encode value)"
    using a by (auto simp: unat_length_byte)
next
  assume "\<exists>(key, value) \<in> set data''.
        255 < length (utf8_encode key) \<or> 255 < length (utf8_encode value)"
  then have "\<not> list_all fits data''" by (fastforce simp: list_all_iff fits_def)
  then show "encode_product_metadata data'' = Inl OverflowError"
    by (simp add: encode_product_metadata_def encode_loop_overflow)
qed

theorem encode_product_metadata_layout_witness:
  "list_all (\<lambda>(key, value). length (utf8_encode key) \<le> 255 \<and> length (utf8_encode value) \<le> 255)
     [(''symbol'', ''BTC/USD''), (''ab'', [])] \<and>
   encode_product_metadata [(''symbol'', ''BTC/USD''), (''ab'', [])] =
     Inr [6, 115, 121, 109, 98, 111, 108, 7, 66, 84, 67, 47, 85, 83, 68, 2, 97, 98, 0] \<and>
   list_ex (\<lambda>(key, value). 255 < length (utf8_encode key) \<or> 255 < length (utf8_encode value))
     [(''a'', ''b''), (''k'', replicate 256 CHR ''v'')] \<and>
   encode_product_metadata [(''a'', ''b''), (''k'', replicate 256 CHR ''v'')] = Inl OverflowError"
  using encode_product_metadata_layout
    [of "[(''symbol'', ''BTC/USD''), (''ab'', [])]" "[(''a'', ''b''), (''k'', replicate 256 CHR ''v'')]"]
  by (simp add: utf8_encode_def entry_bytes_def length_byte_def)

text \<open>
  C8: for a well-formed mapping whose keys and values each encode to at most 255 bytes,
  decoding the output of \<open>encode_product_metadata\<close> gives the mapping back, entries and
  order; hence two such mappings with the same encoding are equal.
\<close>

theorem encode_product_metadata_roundtrip:
  assumes "distinct (map fst d1)" and "list_all fits d1"
  shows "(\<exists>b. encode_product_metadata d1 = Inr b \<and> decode_product_metadata b = Some d1) \<and>
         (distinct (map fst d2) \<and> list_all fits d2 \<and>
          encode_product_metadata d2 = encode_product_metadata d1 \<longrightarrow> d2 = d1)"
proof -
  have rt: "decode_product_metadata (concat (map entry_bytes d)) = Some d"
    if "distinct (map fst d)" "list_all fits d" for d
    using decode_loop_entries[of d "[]"] that by (simp add: decode_product_metadata_def)
  have enc: "encode_product_metadata d = Inr (concat (map entry_bytes d))"
    if "list_all fits d" for d
    using that by (simp add: encode_product_metadata_def encode_loop_fits)
  have "d2 = d1" if "distinct (map fst d2)" "list_all fits d2"
      "encode_product_metadata d2 = encode_product_metadata d1"
  proof -
    have "Inr (concat (map entry_bytes d2)) = (Inr (concat (map entry_bytes d1)) :: error + bytes)"
      by (simp only: that(3) flip: enc[OF that(2)] enc[OF assms(2)])
    then have eq: "concat (map entry_bytes d2) = concat (map entry_bytes d1)"
      by (simp only: sum.inject)
    have "Some d2 = decode_product_metadata (concat (map entry_bytes d2))"
      by (simp only: rt[OF that(1,2)])
    also have "\<dots> = decode_product_metadata (concat (map entry_bytes d1))"
      by (simp only: eq)
    also have "\<dots> = Some d1" by (simp only: rt[OF assms])
    finally show ?thesis by (simp only: option.inject)
  qed
  moreover have "\<exists>b. encode_product_metadata d1 = Inr b \<and> decode_product_metadata b = Some d1"
    using enc[OF assms(2)] rt[OF assms] by simp
  ultimately show ?thesis by (intro conjI impI) simp_all
qed

theorem encode_product_metadata_roundtrip_witness:
  "distinct (map fst [(''symbol'', ''BTC/USD''), (''ab'', [])]) \<and>
   list_all fits [(''symbol'', ''BTC/USD''), (''ab'', [])] \<and>
   (\<exists>b. encode_product_metadata [(''symbol'', ''BTC/USD''), (''ab'', [])] = Inr b \<and>
        decode_product_metadata b = Some [(''symbol'', ''BTC/USD''), (''ab'', [])])"
  using encode_product_metadata_roundtrip
    [of "[(''symbol'', ''BTC/USD''), (''ab'', [])]" "[(''symbol'', ''BTC/USD''), (''ab'', [])]"]
  by (simp add: fits_def utf8_encode_def)

end
